theory Spec2Isabelle
  imports Complex_Main
begin

section \<open>Othello rules engine (open\_spiel/games/othello.cc)\<close>

text \<open>
  A shallow embedding of the Othello state of \<^verbatim>\<open>othello.cc\<close>. C++ \<^verbatim>\<open>int\<close>, \<^verbatim>\<open>Player\<close> and
  \<^verbatim>\<open>Action\<close> values are integers. The quantities that the engine computes from a board
  index (a row or column one step off the board, a count of at most 8, a cell index)
  stay far below the range of a 32-bit \<^verbatim>\<open>int\<close>, and their arithmetic is that of the
  integers. \<^verbatim>\<open>RowColToMove\<close> multiplies two arguments that the caller chooses, so its
  32-bit arithmetic is written out with the wrap-around. \<^verbatim>\<open>SpielFatalError\<close> and the \<^verbatim>\<open>SPIEL_CHECK\<close> macros
  end the process: they are the \<open>Inl\<close> results of the model. A read or write of the
  \<^verbatim>\<open>std::array\<close> board outside \<open>[0, 64)\<close> is undefined behaviour in C++; the model makes it
  the error \<open>OutOfRange\<close>, so that no theorem can rely on it.
\<close>

subsection \<open>Data model\<close>

text \<open>
  Modelled from the spec: the enumerations \<^verbatim>\<open>CellState\<close> and \<^verbatim>\<open>Direction\<close> are declared in
  \<^verbatim>\<open>othello.h\<close> (not among the sources). A cell is "one of {Empty, Black, White}" and a
  direction is "one of 8 enumerated ray directions"; the constructor names are the ones
  that \<^verbatim>\<open>othello.cc\<close> uses. A value of \<open>Direction\<close> is always one of the eight, so the fatal
  \<^verbatim>\<open>default\<close> case of \<^verbatim>\<open>GetNext\<close> has no counterpart.
\<close>

datatype CellState = kEmpty | kBlack | kWhite

datatype Direction =
  kUp | kDown | kLeft | kRight | kUpRight | kUpLeft | kDownRight | kDownLeft

text \<open>One constructor for each fatal message of \<^verbatim>\<open>othello.cc\<close>, one for a failed
  \<^verbatim>\<open>SPIEL_CHECK\<close>, and \<open>OutOfRange\<close> for an array access outside the board.\<close>

datatype error =
    MoveTooLarge int
  | InvalidRowCol int int
  | InvalidPlayerId int
  | CannotCaptureCell int int
  | InvalidMove int
  | CheckFailed
  | OutOfRange int

type_synonym Player = int
type_synonym Action = int
type_synonym Board = "CellState list"

text \<open>
  Modelled from the spec: the sizes declared in \<^verbatim>\<open>othello.h\<close> (not among the sources). The
  board is an "8 x 8 grid", "a fixed-size ordered array of 64 cells"; the tensor has 3
  channels; players are 0 and 1.
\<close>

abbreviation kNumRows :: int where "kNumRows \<equiv> 8"
abbreviation kNumCols :: int where "kNumCols \<equiv> 8"
abbreviation kNumCells :: int where "kNumCells \<equiv> 64"
abbreviation kCellStates :: nat where "kCellStates \<equiv> 3"
abbreviation num_players :: int where "num_players \<equiv> 2"

text \<open>
  Modelled from the spec: \<^verbatim>\<open>kPassMove\<close> is declared in \<^verbatim>\<open>othello.h\<close> (not among the sources).
  Pass is "a single reserved integer value (distinct from all cell indices)"; the value
  taken here is the one just past the last cell.
\<close>

definition kPassMove :: Action where
  "kPassMove = 64"

text \<open>
  Modelled from the spec: \<^verbatim>\<open>kInvalidPlayer\<close> and \<^verbatim>\<open>kTerminalPlayerId\<close> are player ids of the
  framework (not among the sources). The outcome is "undecided" (\<open>kInvalidPlayer\<close>) or
  one of player 0 wins, player 1 wins and draw (\<open>kTerminalPlayerId\<close>); the two ids are
  negative, so they differ from the players 0 and 1, and they differ from each other.
\<close>

definition kInvalidPlayer :: Player where
  "kInvalidPlayer = - 3"

definition kTerminalPlayerId :: Player where
  "kTerminalPlayerId = - 4"

text \<open>The loop \<^verbatim>\<open>for (direction = kUp; direction < kLast; direction++)\<close> visits the eight
  directions in the order of the enumeration, taken here to be the order of the cases of
  \<^verbatim>\<open>GetNext\<close>.\<close>

definition directions :: "Direction list" where
  "directions = [kUp, kDown, kLeft, kRight, kUpRight, kUpLeft, kDownRight, kDownLeft]"

text \<open>The fields of \<^verbatim>\<open>OthelloState\<close> that the rules read and write. The board is a
  \<^verbatim>\<open>std::array\<close> of 64 cells: a state is well formed when its board has length 64.\<close>

record OthelloState =
  board :: Board
  current_player :: Player
  outcome :: Player

text \<open>\<^verbatim>\<open>board_[i]\<close> as a read and as a write.\<close>

definition board_get :: "Board \<Rightarrow> int \<Rightarrow> error + CellState" where
  "board_get b i = (if 0 \<le> i \<and> i < kNumCells then Inr (b ! nat i) else Inl (OutOfRange i))"

definition board_set :: "Board \<Rightarrow> int \<Rightarrow> CellState \<Rightarrow> error + Board" where
  "board_set b i c =
     (if 0 \<le> i \<and> i < kNumCells then Inr (b[nat i := c]) else Inl (OutOfRange i))"

text \<open>
  Modelled from the spec: \<^verbatim>\<open>BoardAt(row, col)\<close>, the read accessor declared in \<^verbatim>\<open>othello.h\<close>
  (not among the sources); the board is "indexed by move = row * 8 + col".
\<close>

definition BoardAt :: "Board \<Rightarrow> int \<Rightarrow> int \<Rightarrow> error + CellState" where
  "BoardAt b row col = board_get b (row * kNumCols + col)"

subsection \<open>Coordinates\<close>

fun GetNext :: "int \<Rightarrow> int \<Rightarrow> Direction \<Rightarrow> int \<times> int" where
  "GetNext row col kUp = (row - 1, col)"
| "GetNext row col kDown = (row + 1, col)"
| "GetNext row col kLeft = (row, col - 1)"
| "GetNext row col kRight = (row, col + 1)"
| "GetNext row col kUpRight = (row - 1, col + 1)"
| "GetNext row col kUpLeft = (row - 1, col - 1)"
| "GetNext row col kDownRight = (row + 1, col + 1)"
| "GetNext row col kDownLeft = (row + 1, col - 1)"

definition OnBoard :: "int \<Rightarrow> int \<Rightarrow> bool" where
  "OnBoard row col \<longleftrightarrow> 0 \<le> row \<and> row < kNumRows \<and> 0 \<le> col \<and> col < kNumCols"

text \<open>In the branch that returns, \<open>move\<close> is not negative, so the truncating \<^verbatim>\<open>/\<close> and \<^verbatim>\<open>%\<close>
  of C++ are \<open>div\<close> and \<open>mod\<close>.\<close>

definition RowColFromMove :: "int \<Rightarrow> error + int \<times> int" where
  "RowColFromMove move =
     (if move < 0 \<or> move \<ge> kNumCells then Inl (MoveTooLarge move)
      else Inr (move div kNumCols, move mod kNumRows))"

text \<open>
  The values of a 32-bit \<^verbatim>\<open>int\<close>, and the value that a 32-bit \<^verbatim>\<open>int\<close> operation leaves
  when its exact result is \<open>x\<close>: the result wraps around modulo \<open>2^32\<close> into
  \<open>[-2^31, 2^31)\<close>.
\<close>

definition in_int32 :: "int \<Rightarrow> bool" where
  "in_int32 x \<longleftrightarrow> - 2147483648 \<le> x \<and> x < 2147483648"

definition int32_wrap :: "int \<Rightarrow> int" where
  "int32_wrap x = (x + 2147483648) mod 4294967296 - 2147483648"

text \<open>\<^verbatim>\<open>row * col\<close>, \<^verbatim>\<open>row * kNumCols\<close> and the sum are 32-bit \<^verbatim>\<open>int\<close> operations on the
  arguments, which are 32-bit \<^verbatim>\<open>int\<close> values.\<close>

definition RowColToMove :: "int \<Rightarrow> int \<Rightarrow> error + int" where
  "RowColToMove row col =
     (if row < 0 \<or> col < 0 \<or> int32_wrap (row * col) \<ge> kNumCells
      then Inl (InvalidRowCol row col)
      else Inr (int32_wrap (int32_wrap (row * kNumCols) + col)))"

definition PlayerToState :: "Player \<Rightarrow> error + CellState" where
  "PlayerToState player =
     (if player = 0 then Inr kBlack
      else if player = 1 then Inr kWhite
      else Inl (InvalidPlayerId player))"

subsection \<open>The ray walk\<close>

function CountSteps_loop ::
  "Board \<Rightarrow> CellState \<Rightarrow> Direction \<Rightarrow> int \<Rightarrow> int \<Rightarrow> int \<Rightarrow> error + int" where
  "CountSteps_loop b cell dir row col count =
     (if OnBoard row col then
        (case BoardAt b row col of
           Inl e \<Rightarrow> Inl e
         | Inr c \<Rightarrow>
             if c = cell then Inr count
             else if c = kEmpty then Inr 0
             else CountSteps_loop b cell dir
                    (fst (GetNext row col dir)) (snd (GetNext row col dir)) (count + 1))
      else Inr 0)"
  by pat_completeness auto
termination
  by (relation "measure (\<lambda>(b, cell, dir, row, col, count).
        (case dir of
           kUp \<Rightarrow> nat (row + 1) | kDown \<Rightarrow> nat (kNumRows - row)
         | kLeft \<Rightarrow> nat (col + 1) | kRight \<Rightarrow> nat (kNumCols - col)
         | kUpRight \<Rightarrow> nat (row + 1) | kUpLeft \<Rightarrow> nat (row + 1)
         | kDownRight \<Rightarrow> nat (kNumRows - row) | kDownLeft \<Rightarrow> nat (kNumRows - row)))")
     (auto simp: OnBoard_def split: Direction.splits)

declare CountSteps_loop.simps [simp del]

definition CountSteps :: "Board \<Rightarrow> Player \<Rightarrow> int \<Rightarrow> Direction \<Rightarrow> error + int" where
  "CountSteps b player move dir =
     (case RowColFromMove move of
        Inl e \<Rightarrow> Inl e
      | Inr rc \<Rightarrow>
          (case PlayerToState player of
             Inl e \<Rightarrow> Inl e
           | Inr cell \<Rightarrow>
               CountSteps_loop b cell dir
                 (fst (GetNext (fst rc) (snd rc) dir)) (snd (GetNext (fst rc) (snd rc) dir)) 0))"

fun CanCapture_loop :: "Board \<Rightarrow> Player \<Rightarrow> int \<Rightarrow> Direction list \<Rightarrow> error + bool" where
  "CanCapture_loop b player move [] = Inr False"
| "CanCapture_loop b player move (d # ds) =
     (case CountSteps b player move d of
        Inl e \<Rightarrow> Inl e
      | Inr n \<Rightarrow> if n \<noteq> 0 then Inr True else CanCapture_loop b player move ds)"

definition CanCapture :: "Board \<Rightarrow> Player \<Rightarrow> int \<Rightarrow> error + bool" where
  "CanCapture b player move =
     (case board_get b move of
        Inl e \<Rightarrow> Inl e
      | Inr c \<Rightarrow> if c \<noteq> kEmpty then Inr False else CanCapture_loop b player move directions)"

function Capture_loop ::
  "Board \<Rightarrow> CellState \<Rightarrow> Direction \<Rightarrow> int \<Rightarrow> int \<Rightarrow> int \<Rightarrow> int \<Rightarrow> error + Board" where
  "Capture_loop b cell dir row col step steps =
     (if step < steps then
        (case BoardAt b row col of
           Inl e \<Rightarrow> Inl e
         | Inr c \<Rightarrow>
             if c = kEmpty \<or> c = cell then Inl (CannotCaptureCell row col)
             else
               (case RowColToMove row col of
                  Inl e \<Rightarrow> Inl e
                | Inr m \<Rightarrow>
                    (case board_set b m cell of
                       Inl e \<Rightarrow> Inl e
                     | Inr b' \<Rightarrow>
                         Capture_loop b' cell dir
                           (fst (GetNext row col dir)) (snd (GetNext row col dir))
                           (step + 1) steps)))
      else Inr b)"
  by pat_completeness auto
termination
  by (relation "measure (\<lambda>(b, cell, dir, row, col, step, steps). nat (steps - step))") auto

declare Capture_loop.simps [simp del]

definition Capture :: "Board \<Rightarrow> Player \<Rightarrow> int \<Rightarrow> Direction \<Rightarrow> int \<Rightarrow> error + Board" where
  "Capture b player move dir steps =
     (case RowColFromMove move of
        Inl e \<Rightarrow> Inl e
      | Inr rc \<Rightarrow>
          (case PlayerToState player of
             Inl e \<Rightarrow> Inl e
           | Inr cell \<Rightarrow>
               Capture_loop b cell dir
                 (fst (GetNext (fst rc) (snd rc) dir)) (snd (GetNext (fst rc) (snd rc) dir))
                 0 steps))"

subsection \<open>Legality, disk counts and move application\<close>

definition DiskCount :: "Board \<Rightarrow> Player \<Rightarrow> error + int" where
  "DiskCount b player =
     (case PlayerToState player of
        Inl e \<Rightarrow> Inl e
      | Inr cell \<Rightarrow>
          Inr (fold (\<lambda>i count. if b ! i = cell then count + 1 else count) [0..<64] 0))"

definition ValidAction :: "Board \<Rightarrow> Player \<Rightarrow> int \<Rightarrow> error + bool" where
  "ValidAction b player move =
     (case board_get b move of
        Inl e \<Rightarrow> Inl e
      | Inr c \<Rightarrow> if c = kEmpty then CanCapture b player move else Inr False)"

fun LegalRegularActions_loop ::
  "Board \<Rightarrow> Player \<Rightarrow> int list \<Rightarrow> Action list \<Rightarrow> error + Action list" where
  "LegalRegularActions_loop b p [] moves = Inr moves"
| "LegalRegularActions_loop b p (cell # cells) moves =
     (case ValidAction b p cell of
        Inl e \<Rightarrow> Inl e
      | Inr v \<Rightarrow> LegalRegularActions_loop b p cells (if v then moves @ [cell] else moves))"

definition LegalRegularActions :: "Board \<Rightarrow> Player \<Rightarrow> error + Action list" where
  "LegalRegularActions b p = LegalRegularActions_loop b p [0..kNumCells - 1] []"

definition NoValidActions :: "Board \<Rightarrow> error + bool" where
  "NoValidActions b =
     (case LegalRegularActions b 0 of
        Inl e \<Rightarrow> Inl e
      | Inr m0 \<Rightarrow>
          if m0 = [] then
            (case LegalRegularActions b 1 of
               Inl e \<Rightarrow> Inl e
             | Inr m1 \<Rightarrow> Inr (m1 = []))
          else Inr False)"

fun DoApplyAction_loop :: "Board \<Rightarrow> Player \<Rightarrow> int \<Rightarrow> Direction list \<Rightarrow> error + Board" where
  "DoApplyAction_loop b player move [] = Inr b"
| "DoApplyAction_loop b player move (d # ds) =
     (case CountSteps b player move d of
        Inl e \<Rightarrow> Inl e
      | Inr steps \<Rightarrow>
          if steps > 0 then
            (case Capture b player move d steps of
               Inl e \<Rightarrow> Inl e
             | Inr b' \<Rightarrow> DoApplyAction_loop b' player move ds)
          else DoApplyAction_loop b player move ds)"

text \<open>The last part of \<^verbatim>\<open>DoApplyAction\<close>: the end-of-game check on the board \<open>b\<close> reached
  after the piece is placed and the captures are made.\<close>

definition end_game_check :: "OthelloState \<Rightarrow> Board \<Rightarrow> error + OthelloState" where
  "end_game_check s b =
     (case NoValidActions b of
        Inl e \<Rightarrow> Inl e
      | Inr nva \<Rightarrow>
          if nva then
            (case DiskCount b 0 of
               Inl e \<Rightarrow> Inl e
             | Inr count_zero \<Rightarrow>
                 (case DiskCount b 1 of
                    Inl e \<Rightarrow> Inl e
                  | Inr count_one \<Rightarrow>
                      if count_zero > count_one then Inr (s\<lparr>board := b, outcome := 0\<rparr>)
                      else if count_zero < count_one then Inr (s\<lparr>board := b, outcome := 1\<rparr>)
                      else Inr (s\<lparr>board := b, outcome := kTerminalPlayerId\<rparr>)))
          else Inr (s\<lparr>board := b, current_player := 1 - current_player s\<rparr>))"

definition DoApplyAction :: "OthelloState \<Rightarrow> Action \<Rightarrow> error + OthelloState" where
  "DoApplyAction s move =
     (if move = kPassMove then Inr (s\<lparr>current_player := 1 - current_player s\<rparr>)
      else
        (case ValidAction (board s) (current_player s) move of
           Inl e \<Rightarrow> Inl e
         | Inr v \<Rightarrow>
             if \<not> v then Inl (InvalidMove move)
             else
               (case PlayerToState (current_player s) of
                  Inl e \<Rightarrow> Inl e
                | Inr cell \<Rightarrow>
                    (case board_set (board s) move cell of
                       Inl e \<Rightarrow> Inl e
                     | Inr b1 \<Rightarrow>
                         (case DoApplyAction_loop b1 (current_player s) move directions of
                            Inl e \<Rightarrow> Inl e
                          | Inr b2 \<Rightarrow> end_game_check s b2)))))"

definition IsTerminal :: "OthelloState \<Rightarrow> bool" where
  "IsTerminal s \<longleftrightarrow> outcome s \<noteq> kInvalidPlayer"

definition LegalActions :: "OthelloState \<Rightarrow> error + Action list" where
  "LegalActions s =
     (if IsTerminal s then Inr []
      else
        (case LegalRegularActions (board s) (current_player s) of
           Inl e \<Rightarrow> Inl e
         | Inr moves \<Rightarrow> Inr (if moves = [] then moves @ [kPassMove] else moves)))"

text \<open>The two doubles that \<^verbatim>\<open>Returns\<close> yields are the literals 1.0, -1.0 and 0.0.\<close>

definition Returns :: "OthelloState \<Rightarrow> real list" where
  "Returns s =
     (if outcome s = 0 then [1, - 1]
      else if outcome s = 1 then [- 1, 1]
      else [0, 0])"

text \<open>The board that the constructor of \<^verbatim>\<open>OthelloState\<close> builds.\<close>

definition initial_board :: Board where
  "initial_board =
     (replicate 64 kEmpty)[27 := kWhite, 28 := kBlack, 35 := kBlack, 36 := kWhite]"

text \<open>
  Modelled from the spec: the initial values of \<^verbatim>\<open>current_player_\<close> and \<^verbatim>\<open>outcome_\<close> are
  given in \<^verbatim>\<open>othello.h\<close> (not among the sources). The state "is created with the fixed
  initial board and player 0 to move", and its outcome is undecided.
\<close>

definition NewInitialState :: OthelloState where
  "NewInitialState =
     \<lparr>board = initial_board, current_player = 0, outcome = kInvalidPlayer\<rparr>"

subsection \<open>Observation tensor\<close>

text \<open>
  Modelled from the spec: \<^verbatim>\<open>static_cast<int>\<close> of a cell state (the enumeration is declared
  in \<^verbatim>\<open>othello.h\<close>, not among the sources): empty is 0, and player 0's colour
  (black) and player 1's colour (white) are 1 and 2.
\<close>

fun CellState_value :: "CellState \<Rightarrow> int" where
  "CellState_value kEmpty = 0"
| "CellState_value kBlack = 1"
| "CellState_value kWhite = 2"

text \<open>
  Modelled from the spec: \<^verbatim>\<open>TensorView<2>\<close> of \<^verbatim>\<open>tensor_view.h\<close> (not among the
  sources) over the shape \<open>{kCellStates, kNumCells}\<close> with the reset flag set: the buffer is a
  "3 x 64 tensor", 192 values all 0.0 at the start, and \<open>view[{channel, cell}]\<close> is the
  entry \<open>channel * 64 + cell\<close>.
\<close>

definition TensorView_reset :: "real list" where
  "TensorView_reset = replicate (kCellStates * 64) 0"

definition view_index :: "nat \<Rightarrow> nat \<Rightarrow> nat" where
  "view_index channel cell = channel * 64 + cell"

definition ObservationTensor_step :: "Board \<Rightarrow> Player \<Rightarrow> nat \<Rightarrow> real list \<Rightarrow> real list" where
  "ObservationTensor_step b player cell view =
     (let v = CellState_value (b ! cell) in
      if player = 1 then
        (if v = 2 then view[view_index 1 cell := 1]
         else if v = 1 then view[view_index 2 cell := 1]
         else view[view_index 0 cell := 1])
      else view[view_index (nat v) cell := 1])"

definition ObservationTensor :: "Board \<Rightarrow> Player \<Rightarrow> error + real list" where
  "ObservationTensor b player =
     (if \<not> player \<ge> 0 then Inl CheckFailed
      else if \<not> player < num_players then Inl CheckFailed
      else Inr (fold (ObservationTensor_step b player) [0..<64] TensorView_reset))"

subsection \<open>The cells of a walk\<close>

text \<open>
  \<open>walk row col dir j\<close> is the cell reached from \<open>(row, col)\<close> by \<open>j\<close> calls of \<^verbatim>\<open>GetNext\<close>, and
  \<open>ray_cell move dir j\<close> is the \<open>j\<close>-th cell that \<^verbatim>\<open>CountSteps\<close> and \<^verbatim>\<open>Capture\<close> look at for
  \<open>move\<close>: \<open>j = 0\<close> is the cell adjacent to the move. \<open>cell_is b p c\<close> says that \<open>p\<close> is on the
  board and holds \<open>c\<close>.
\<close>

fun walk :: "int \<Rightarrow> int \<Rightarrow> Direction \<Rightarrow> nat \<Rightarrow> int \<times> int" where
  "walk row col dir 0 = (row, col)"
| "walk row col dir (Suc j) =
     walk (fst (GetNext row col dir)) (snd (GetNext row col dir)) dir j"

definition ray_cell :: "int \<Rightarrow> Direction \<Rightarrow> nat \<Rightarrow> int \<times> int" where
  "ray_cell move dir j = walk (move div kNumCols) (move mod kNumRows) dir (Suc j)"

definition cell_is :: "Board \<Rightarrow> int \<times> int \<Rightarrow> CellState \<Rightarrow> bool" where
  "cell_is b p c \<longleftrightarrow> OnBoard (fst p) (snd p) \<and> BoardAt b (fst p) (snd p) = Inr c"

definition cell_index :: "int \<times> int \<Rightarrow> int" where
  "cell_index p = fst p * kNumCols + snd p"

text \<open>
  The channel that the spec gives to a stored cell value in a player's tensor: for player
  0 the stored value itself; for player 1 the values 1 and 2 change places and empty stays
  at channel 0.
\<close>

definition channel_of :: "Player \<Rightarrow> CellState \<Rightarrow> nat" where
  "channel_of player c =
     (if player = 1 then
        (if CellState_value c = 1 then 2 else if CellState_value c = 2 then 1 else 0)
      else nat (CellState_value c))"

text \<open>The row and column increments that \<^verbatim>\<open>GetNext\<close> adds in a direction.\<close>

definition drow :: "Direction \<Rightarrow> int" where
  "drow d = fst (GetNext 0 0 d)"

definition dcol :: "Direction \<Rightarrow> int" where
  "dcol d = snd (GetNext 0 0 d)"

section \<open>Coordinate conversions\<close>

lemma int32_wrap_id: "in_int32 x \<Longrightarrow> int32_wrap x = x"
  unfolding in_int32_def int32_wrap_def by (simp add: mod_pos_pos_trivial)

lemma OnBoard_index_range:
  "OnBoard row col \<Longrightarrow> 0 \<le> row * 8 + col \<and> row * 8 + col < 64"
  unfolding OnBoard_def by linarith

lemma OnBoard_RowColToMove:
  assumes "OnBoard row col" shows "RowColToMove row col = Inr (row * 8 + col)"
proof -
  from assms have "row * col \<le> 7 * 7"
    unfolding OnBoard_def by (intro mult_mono) simp_all
  moreover from assms have "0 \<le> row * col"
    unfolding OnBoard_def by simp
  ultimately have "0 \<le> row * col" "row * col \<le> 7 * 7"
    by simp_all
  then have p: "int32_wrap (row * col) = row * col" "row * col < 64"
    by (simp_all add: int32_wrap_id in_int32_def)
  have r: "int32_wrap (row * 8) = row * 8"
    using assms by (intro int32_wrap_id) (simp add: in_int32_def OnBoard_def)
  have m: "int32_wrap (row * 8 + col) = row * 8 + col"
    using OnBoard_index_range [OF assms] by (intro int32_wrap_id) (simp add: in_int32_def)
  from assms p r m show ?thesis
    by (simp add: RowColToMove_def OnBoard_def)
qed




text \<open>
  C8. For a move in \<open>[0, 64)\<close>, \<^verbatim>\<open>RowColFromMove\<close> returns \<open>(move div 8, move mod 8)\<close> and
  \<^verbatim>\<open>RowColToMove\<close> takes that pair back to the move; for a pair on the board,
  \<^verbatim>\<open>RowColToMove\<close> succeeds and \<^verbatim>\<open>RowColFromMove\<close> takes its result back to the pair; for a
  move outside \<open>[0, 64)\<close>, \<^verbatim>\<open>RowColFromMove\<close> fails fatally.
\<close>

theorem RowColFromMove_inverse:
  "(0 \<le> move \<and> move < 64 \<longrightarrow>
      RowColFromMove move = Inr (move div 8, move mod 8) \<and>
      RowColToMove (move div 8) (move mod 8) = Inr move) \<and>
   (OnBoard row col \<longrightarrow>
      (\<exists>m. RowColToMove row col = Inr m \<and> 0 \<le> m \<and> m < 64 \<and>
           RowColFromMove m = Inr (row, col))) \<and>
   (\<not> (0 \<le> move \<and> move < 64) \<longrightarrow> (\<exists>e. RowColFromMove move = Inl e))"
proof (intro conjI impI)
  assume m: "0 \<le> move \<and> move < 64"
  show "RowColFromMove move = Inr (move div 8, move mod 8)"
    using m by (simp add: RowColFromMove_def)
  have bounds: "move div 8 < 8" "0 \<le> move div 8" "0 \<le> move mod 8" "move mod 8 < 8"
    using m by presburger+
  then have "OnBoard (move div 8) (move mod 8)"
    by (simp add: OnBoard_def)
  then have "RowColToMove (move div 8) (move mod 8) = Inr (move div 8 * 8 + move mod 8)"
    by (rule OnBoard_RowColToMove)
  then show "RowColToMove (move div 8) (move mod 8) = Inr move"
    by simp
next
  assume ob: "OnBoard row col"
  then have "RowColToMove row col = Inr (row * 8 + col)"
    by (rule OnBoard_RowColToMove)
  moreover have "RowColFromMove (row * 8 + col) = Inr (row, col)"
    using ob by (simp add: RowColFromMove_def OnBoard_def)
  moreover have "0 \<le> row * 8 + col \<and> row * 8 + col < 64"
    using ob by (simp add: OnBoard_def)
  ultimately show "\<exists>m. RowColToMove row col = Inr m \<and> 0 \<le> m \<and> m < 64 \<and>
           RowColFromMove m = Inr (row, col)"
    by simp
next
  assume "\<not> (0 \<le> move \<and> move < 64)"
  then show "\<exists>e. RowColFromMove move = Inl e"
    by (auto simp: RowColFromMove_def)
qed

theorem RowColFromMove_inverse_witness:
  "RowColFromMove 27 = Inr (3, 3) \<and> RowColToMove 3 3 = Inr 27 \<and>
   OnBoard 7 5 \<and> (\<exists>m. RowColToMove 7 5 = Inr m \<and> RowColFromMove m = Inr (7, 5)) \<and>
   (\<exists>e. RowColFromMove 64 = Inl e) \<and> (\<exists>e. RowColFromMove (- 1) = Inl e)"
  using RowColFromMove_inverse [of 27 7 5] RowColFromMove_inverse [of 64 7 5]
    RowColFromMove_inverse [of "- 1" 7 5]
  by (auto simp: OnBoard_def)

section \<open>Pass and returns\<close>

text \<open>
  C6. In every state, applying the Pass action succeeds and gives the same state with the
  current player replaced by \<open>1 - current_player\<close> (the other of the players 0 and 1):
  the board and the outcome are those of the state before. Since this holds whatever the
  board is, no legality check and no end-of-game check stands in the way.
\<close>

theorem DoApplyAction_pass:
  "DoApplyAction s kPassMove = Inr (s\<lparr>current_player := 1 - current_player s\<rparr>) \<and>
   (\<exists>s'. DoApplyAction s kPassMove = Inr s' \<and> board s' = board s \<and>
         outcome s' = outcome s \<and> current_player s' = 1 - current_player s)"
  by (simp add: DoApplyAction_def)

text \<open>
  Two instances: on the initial state the current player has regular moves and Pass is
  applied all the same; on the empty board neither player has a regular move and Pass
  leaves the outcome undecided.
\<close>

lemma DoApplyAction_pass_unchecked:
  "LegalActions NewInitialState = Inr [19, 26, 37, 44] \<and>
   DoApplyAction NewInitialState kPassMove = Inr (NewInitialState\<lparr>current_player := 1\<rparr>) \<and>
   NoValidActions (replicate 64 kEmpty) = Inr True \<and>
   DoApplyAction \<lparr>board = replicate 64 kEmpty, current_player = 0, outcome = kInvalidPlayer\<rparr>
     kPassMove =
   Inr \<lparr>board = replicate 64 kEmpty, current_player = 1, outcome = kInvalidPlayer\<rparr>"
  by code_simp

text \<open>
  C10. In a state whose outcome is undecided, \<^verbatim>\<open>Returns\<close> yields \<open>{0, 0}\<close>, which is also
  what it yields once the outcome is a draw.
\<close>

theorem Returns_undecided:
  "\<not> IsTerminal s \<Longrightarrow>
     Returns s = [0, 0] \<and>
     IsTerminal (s\<lparr>outcome := kTerminalPlayerId\<rparr>) \<and>
     Returns (s\<lparr>outcome := kTerminalPlayerId\<rparr>) = Returns s"
  by (simp add: IsTerminal_def Returns_def kInvalidPlayer_def kTerminalPlayerId_def)

theorem Returns_undecided_witness:
  "\<not> IsTerminal NewInitialState \<and> Returns NewInitialState = [0, 0] \<and>
   IsTerminal (NewInitialState\<lparr>outcome := kTerminalPlayerId\<rparr>) \<and>
   Returns (NewInitialState\<lparr>outcome := kTerminalPlayerId\<rparr>) = Returns NewInitialState"
proof -
  have h: "\<not> IsTerminal NewInitialState"
    by (simp add: IsTerminal_def NewInitialState_def)
  show ?thesis using h Returns_undecided [OF h] by simp
qed

section \<open>CountSteps\<close>

lemma CountSteps_loop_skip:
  "\<forall>j<k. \<exists>c. cell_is b (walk row col dir j) c \<and> c \<noteq> cell \<and> c \<noteq> kEmpty \<Longrightarrow>
   CountSteps_loop b cell dir row col count =
   CountSteps_loop b cell dir (fst (walk row col dir k)) (snd (walk row col dir k)) (count + int k)"
proof (induction k arbitrary: row col count)
  case 0
  then show ?case by simp
next
  case (Suc k)
  from Suc.prems have here: "\<exists>c. cell_is b (row, col) c \<and> c \<noteq> cell \<and> c \<noteq> kEmpty"
    by (metis walk.simps(1) zero_less_Suc)
  have rest: "\<forall>j<k. \<exists>c. cell_is b (walk (fst (GetNext row col dir)) (snd (GetNext row col dir)) dir j) c
      \<and> c \<noteq> cell \<and> c \<noteq> kEmpty"
    using Suc.prems by (metis Suc_less_eq walk.simps(2))
  from here have "CountSteps_loop b cell dir row col count =
     CountSteps_loop b cell dir (fst (GetNext row col dir)) (snd (GetNext row col dir)) (count + 1)"
    by (subst CountSteps_loop.simps) (auto simp: cell_is_def)
  also have "\<dots> = CountSteps_loop b cell dir (fst (walk row col dir (Suc k)))
       (snd (walk row col dir (Suc k))) (count + 1 + int k)"
    using Suc.IH [OF rest] by simp
  finally show ?case by (simp add: add.assoc)
qed

lemma CountSteps_loop_own:
  "cell_is b (row, col) cell \<Longrightarrow> CountSteps_loop b cell dir row col count = Inr count"
  by (simp add: CountSteps_loop.simps [of b cell dir row col count] cell_is_def)

lemma CountSteps_loop_empty:
  "cell_is b (row, col) kEmpty \<Longrightarrow> cell \<noteq> kEmpty \<Longrightarrow>
   CountSteps_loop b cell dir row col count = Inr 0"
  by (simp add: CountSteps_loop.simps [of b cell dir row col count] cell_is_def)

lemma CountSteps_loop_off:
  "\<not> OnBoard row col \<Longrightarrow> CountSteps_loop b cell dir row col count = Inr 0"
  by (simp add: CountSteps_loop.simps [of b cell dir row col count])

lemma CountSteps_loop_conv:
  "CountSteps_loop b cell dir row col count = Inr n \<Longrightarrow> 0 \<le> count \<Longrightarrow> 0 < n \<Longrightarrow>
   count \<le> n \<and>
   (\<forall>j < nat (n - count). \<exists>c. cell_is b (walk row col dir j) c \<and> c \<noteq> cell \<and> c \<noteq> kEmpty) \<and>
   cell_is b (walk row col dir (nat (n - count))) cell"
proof (induction b cell dir row col count rule: CountSteps_loop.induct)
  case (1 b cell dir row col count)
  let ?r = "fst (GetNext row col dir)" and ?c = "snd (GetNext row col dir)"
  from "1.prems" have ob: "OnBoard row col"
    by (auto simp: CountSteps_loop.simps [of b cell dir row col count] split: if_splits)
  with "1.prems" obtain c where c: "BoardAt b row col = Inr c"
    by (auto simp: CountSteps_loop.simps [of b cell dir row col count] split: sum.splits)
  show ?case
  proof (cases "c = cell")
    case True
    with ob c "1.prems" have "n = count"
      by (simp add: CountSteps_loop.simps [of b cell dir row col count])
    with True ob c show ?thesis by (simp add: cell_is_def)
  next
    case False
    with ob c "1.prems" have ne: "c \<noteq> kEmpty"
      by (auto simp: CountSteps_loop.simps [of b cell dir row col count])
    with False ob c "1.prems" have rec: "CountSteps_loop b cell dir ?r ?c (count + 1) = Inr n"
      by (simp add: CountSteps_loop.simps [of b cell dir row col count])
    have ih: "count + 1 \<le> n \<and>
       (\<forall>j < nat (n - (count + 1)). \<exists>c. cell_is b (walk ?r ?c dir j) c \<and> c \<noteq> cell \<and> c \<noteq> kEmpty) \<and>
       cell_is b (walk ?r ?c dir (nat (n - (count + 1)))) cell"
      using "1.IH" [OF ob c False ne rec] "1.prems" by simp
    then have eq: "nat (n - count) = Suc (nat (n - (count + 1)))" by linarith
    have here: "cell_is b (walk row col dir 0) c \<and> c \<noteq> cell \<and> c \<noteq> kEmpty"
      using ob c False ne by (simp add: cell_is_def)
    have "\<exists>c. cell_is b (walk row col dir j) c \<and> c \<noteq> cell \<and> c \<noteq> kEmpty"
      if "j < Suc (nat (n - (count + 1)))" for j
    proof (cases j)
      case 0
      with here show ?thesis by blast
    next
      case (Suc j')
      with that ih show ?thesis by simp
    qed
    with ih eq show ?thesis by simp
  qed
qed


lemma PlayerToState_cases:
  "PlayerToState player = Inr own \<Longrightarrow>
   (player = 0 \<and> own = kBlack \<and> PlayerToState (1 - player) = Inr kWhite) \<or>
   (player = 1 \<and> own = kWhite \<and> PlayerToState (1 - player) = Inr kBlack)"
  by (auto simp: PlayerToState_def split: if_splits)

lemma opponent_iff:
  "PlayerToState player = Inr own \<Longrightarrow>
   (PlayerToState (1 - player) = Inr c) = (c \<noteq> own \<and> c \<noteq> kEmpty)"
  by (cases c) (auto simp: PlayerToState_def split: if_splits)

lemma CountSteps_unfold:
  "PlayerToState player = Inr own \<Longrightarrow> 0 \<le> move \<Longrightarrow> move < 64 \<Longrightarrow>
   CountSteps b player move dir =
     CountSteps_loop b own dir (fst (ray_cell move dir 0)) (snd (ray_cell move dir 0)) 0"
  by (simp add: CountSteps_def RowColFromMove_def ray_cell_def)

lemma ray_cell_walk:
  "walk (fst (ray_cell move dir 0)) (snd (ray_cell move dir 0)) dir j = ray_cell move dir j"
  by (simp add: ray_cell_def)

text \<open>
  C2 (as amended). For a valid player and a move on the board, \<^verbatim>\<open>CountSteps\<close> walks from the
  cell adjacent to the move. If the first \<open>k\<close> cells of the walk are on the board and hold
  the opponent's colour, then: when the next cell holds the player's own colour the result
  is \<open>k\<close> (which is 0 when the adjacent cell itself is the player's own); when the next
  cell is empty the result is 0; when the next cell is off the board the result is 0.
\<close>

theorem CountSteps_walk:
  assumes "PlayerToState player = Inr own" and "0 \<le> move" and "move < 64"
    and "\<forall>j<k. \<exists>c. PlayerToState (1 - player) = Inr c \<and> cell_is b (ray_cell move dir j) c"
  shows "(cell_is b (ray_cell move dir k) own \<longrightarrow> CountSteps b player move dir = Inr (int k)) \<and>
         (cell_is b (ray_cell move dir k) kEmpty \<longrightarrow> CountSteps b player move dir = Inr 0) \<and>
         (\<not> OnBoard (fst (ray_cell move dir k)) (snd (ray_cell move dir k)) \<longrightarrow>
            CountSteps b player move dir = Inr 0)"
proof -
  let ?r = "fst (ray_cell move dir 0)" and ?c = "snd (ray_cell move dir 0)"
  have ne: "own \<noteq> kEmpty"
    using assms(1) by (auto simp: PlayerToState_def split: if_splits)
  have "\<forall>j<k. \<exists>c. cell_is b (walk ?r ?c dir j) c \<and> c \<noteq> own \<and> c \<noteq> kEmpty"
    using assms(4) opponent_iff [OF assms(1)] unfolding ray_cell_walk by blast
  then have "CountSteps_loop b own dir ?r ?c 0 =
      CountSteps_loop b own dir (fst (walk ?r ?c dir k)) (snd (walk ?r ?c dir k)) (0 + int k)"
    by (rule CountSteps_loop_skip)
  then have eq: "CountSteps b player move dir =
      CountSteps_loop b own dir (fst (ray_cell move dir k)) (snd (ray_cell move dir k)) (int k)"
    using CountSteps_unfold [OF assms(1-3)] by (simp add: ray_cell_walk)
  show ?thesis
    using eq ne CountSteps_loop_own [of b "fst (ray_cell move dir k)" "snd (ray_cell move dir k)" own dir "int k"]
      CountSteps_loop_empty [of b "fst (ray_cell move dir k)" "snd (ray_cell move dir k)" own dir "int k"]
      CountSteps_loop_off [of "fst (ray_cell move dir k)" "snd (ray_cell move dir k)" b own dir "int k"]
    by simp
qed


theorem CountSteps_walk_witness:
  "PlayerToState 0 = Inr kBlack \<and>
   cell_is initial_board (ray_cell 19 kDown 0) kWhite \<and>
   cell_is initial_board (ray_cell 19 kDown 1) kBlack \<and>
   CountSteps initial_board 0 19 kDown = Inr 1 \<and>
   cell_is initial_board (ray_cell 19 kUp 0) kEmpty \<and>
   CountSteps initial_board 0 19 kUp = Inr 0 \<and>
   \<not> OnBoard (fst (ray_cell 0 kUp 0)) (snd (ray_cell 0 kUp 0)) \<and>
   CountSteps initial_board 0 0 kUp = Inr 0"
proof -
  have p: "PlayerToState 0 = Inr kBlack"
    by (simp add: PlayerToState_def)
  have c0: "cell_is initial_board (ray_cell 19 kDown 0) kWhite"
    by (simp add: ray_cell_def cell_is_def OnBoard_def BoardAt_def board_get_def
        initial_board_def)
  have c1: "cell_is initial_board (ray_cell 19 kDown 1) kBlack"
    by (simp add: ray_cell_def cell_is_def OnBoard_def BoardAt_def board_get_def
        initial_board_def)
  have e: "cell_is initial_board (ray_cell 19 kUp 0) kEmpty"
    by (simp add: ray_cell_def cell_is_def OnBoard_def BoardAt_def board_get_def
        initial_board_def)
  have off: "\<not> OnBoard (fst (ray_cell 0 kUp 0)) (snd (ray_cell 0 kUp 0))"
    by (simp add: ray_cell_def OnBoard_def)
  have opp: "\<forall>j<1. \<exists>c. PlayerToState (1 - 0) = Inr c \<and>
      cell_is initial_board (ray_cell 19 kDown j) c"
    using c0 by (simp add: PlayerToState_def)
  have none: "\<forall>j<0. \<exists>c. PlayerToState (1 - 0) = Inr c \<and> cell_is initial_board (ray_cell m d j) c"
    for m d by simp
  show ?thesis
    using p c0 c1 e off
      CountSteps_walk [OF p _ _ opp]
      CountSteps_walk [OF p _ _ none [of 19 kUp]]
      CountSteps_walk [OF p _ _ none [of 0 kUp]]
    by simp
qed

text \<open>
  The claim as written calls the result on reaching the player's own colour a non-zero
  flank length. On the initial board, the walk of player 0 (black) from cell 20 downwards
  reaches black at once, in the adjacent cell (3, 4), and the result is 0.
\<close>

theorem CountSteps_own_adjacent_zero:
  "PlayerToState 0 = Inr kBlack \<and>
   ray_cell 20 kDown 0 = (3, 4) \<and>
   cell_is initial_board (ray_cell 20 kDown 0) kBlack \<and>
   CountSteps initial_board 0 20 kDown = Inr 0"
  by (simp add: ray_cell_def cell_is_def CountSteps_def RowColFromMove_def PlayerToState_def
      CountSteps_loop.simps OnBoard_def BoardAt_def board_get_def initial_board_def)

section \<open>Capture\<close>

lemma GetNext_OnBoard_index:
  "OnBoard row col \<Longrightarrow> OnBoard r' c' \<Longrightarrow> r' * 8 + c' = row * 8 + col \<Longrightarrow> r' = row \<and> c' = col"
  unfolding OnBoard_def by presburger

lemma GetNext_delta: "GetNext row col dir = (row + drow dir, col + dcol dir)"
  by (cases dir) (simp_all add: drow_def dcol_def)

lemma walk_closed:
  "walk row col dir j = (row + int j * drow dir, col + int j * dcol dir)"
proof (induction j arbitrary: row col)
  case 0
  then show ?case by simp
next
  case (Suc j)
  show ?case
    unfolding walk.simps Suc.IH GetNext_delta by (simp add: algebra_simps)
qed

lemma walk_Suc_neq:
  "walk row col dir (Suc j) \<noteq> (row, col)"
proof -
  have "int (Suc j) * drow dir \<noteq> 0 \<or> int (Suc j) * dcol dir \<noteq> 0"
    by (cases dir) (simp_all add: drow_def dcol_def)
  then show ?thesis unfolding walk_closed by auto
qed

lemma walk_Suc_index_neq:
  assumes "OnBoard row col" and "OnBoard (fst (walk row col dir (Suc j))) (snd (walk row col dir (Suc j)))"
  shows "cell_index (walk row col dir (Suc j)) \<noteq> cell_index (row, col)"
proof
  assume "cell_index (walk row col dir (Suc j)) = cell_index (row, col)"
  then have "fst (walk row col dir (Suc j)) = row \<and> snd (walk row col dir (Suc j)) = col"
    using GetNext_OnBoard_index [OF assms(1) assms(2)] by (simp add: cell_index_def)
  then have "walk row col dir (Suc j) = (row, col)"
    by (metis prod.collapse)
  then show False using walk_Suc_neq by blast
qed

lemma Capture_loop_done: "Capture_loop b cell dir row col step step = Inr b"
  by (simp add: Capture_loop.simps [of b cell dir row col step step])

lemma Capture_loop_step:
  assumes "OnBoard row col" and "BoardAt b row col = Inr c" and "c \<noteq> kEmpty" and "c \<noteq> cell"
    and "step < steps"
  shows "Capture_loop b cell dir row col step steps =
         Capture_loop (b[nat (row * 8 + col) := cell]) cell dir
           (fst (GetNext row col dir)) (snd (GetNext row col dir)) (step + 1) steps"
  using assms OnBoard_RowColToMove [OF assms(1)] OnBoard_index_range [OF assms(1)]
  by (simp add: Capture_loop.simps [of b cell dir row col step steps] board_set_def)

lemma cell_is_update_other:
  assumes "OnBoard (fst p) (snd p)" and "cell_index p \<noteq> i" and "0 \<le> i"
  shows "cell_is (b[nat i := x]) p c = cell_is b p c"
proof -
  have "0 \<le> cell_index p"
    using OnBoard_index_range [OF assms(1)] by (simp add: cell_index_def)
  with assms(2,3) have "nat (cell_index p) \<noteq> nat i" by simp
  then show ?thesis
    by (simp add: cell_is_def BoardAt_def board_get_def cell_index_def)
qed

lemma Capture_loop_flips:
  "length b = 64 \<Longrightarrow>
   \<forall>j<k. \<exists>c. cell_is b (walk row col dir j) c \<and> c \<noteq> cell \<and> c \<noteq> kEmpty \<Longrightarrow>
   \<exists>b'. Capture_loop b cell dir row col step (step + int k) = Inr b' \<and> length b' = 64 \<and>
        (\<forall>i<64. b' ! i = (if \<exists>j<k. cell_index (walk row col dir j) = int i then cell else b ! i))"
proof (induction k arbitrary: b row col step)
  case 0
  then show ?case by (simp add: Capture_loop_done)
next
  case (Suc k)
  let ?r = "fst (GetNext row col dir)" and ?c = "snd (GetNext row col dir)"
  let ?i = "row * 8 + col"
  let ?b1 = "b[nat ?i := cell]"
  from Suc.prems(2) obtain c where here: "cell_is b (row, col) c" "c \<noteq> cell" "c \<noteq> kEmpty"
    by (metis walk.simps(1) zero_less_Suc)
  then have ob: "OnBoard row col" and at: "BoardAt b row col = Inr c"
    by (simp_all add: cell_is_def)
  have i: "0 \<le> ?i" "?i < 64" using OnBoard_index_range [OF ob] by simp_all
  have step: "Capture_loop b cell dir row col step (step + int (Suc k)) =
      Capture_loop ?b1 cell dir ?r ?c (step + 1) (step + 1 + int k)"
    using Capture_loop_step [OF ob at here(3) here(2), of step "step + int (Suc k)" dir]
    by (simp add: add.assoc)
  have rest: "\<forall>j<k. \<exists>c. cell_is ?b1 (walk ?r ?c dir j) c \<and> c \<noteq> cell \<and> c \<noteq> kEmpty"
  proof (intro allI impI)
    fix j assume "j < k"
    then obtain c' where c': "cell_is b (walk row col dir (Suc j)) c'" "c' \<noteq> cell" "c' \<noteq> kEmpty"
      using Suc.prems(2) by (meson Suc_less_eq)
    then have ob': "OnBoard (fst (walk row col dir (Suc j))) (snd (walk row col dir (Suc j)))"
      by (simp add: cell_is_def)
    have "cell_index (walk row col dir (Suc j)) \<noteq> ?i"
      using walk_Suc_index_neq [OF ob ob'] by (simp add: cell_index_def)
    then have "cell_is ?b1 (walk row col dir (Suc j)) c'"
      using cell_is_update_other [OF ob' _ i(1)] c'(1) by simp
    with c' show "\<exists>c. cell_is ?b1 (walk ?r ?c dir j) c \<and> c \<noteq> cell \<and> c \<noteq> kEmpty"
      by auto
  qed
  have len1: "length ?b1 = 64" using Suc.prems(1) by simp
  from Suc.IH [OF len1 rest, of "step + 1"] obtain b' where b':
    "Capture_loop ?b1 cell dir ?r ?c (step + 1) (step + 1 + int k) = Inr b'" "length b' = 64"
    "\<forall>i<64. b' ! i = (if \<exists>j<k. cell_index (walk ?r ?c dir j) = int i then cell else ?b1 ! i)"
    by blast
  have "b' ! i = (if \<exists>j<Suc k. cell_index (walk row col dir j) = int i then cell else b ! i)"
    if "i < 64" for i
  proof (cases "\<exists>j<k. cell_index (walk ?r ?c dir j) = int i")
    case True
    then obtain j where "j < k" "cell_index (walk row col dir (Suc j)) = int i" by auto
    then have "\<exists>j<Suc k. cell_index (walk row col dir j) = int i"
      by (meson Suc_less_eq)
    moreover from b'(3) that
    have "b' ! i = (if \<exists>j<k. cell_index (walk ?r ?c dir j) = int i then cell else ?b1 ! i)"
      by blast
    ultimately show ?thesis using True by (simp only: if_True)
  next
    case False
    from b'(3) that
    have "b' ! i = (if \<exists>j<k. cell_index (walk ?r ?c dir j) = int i then cell else ?b1 ! i)"
      by blast
    with False have eq: "b' ! i = ?b1 ! i" by (simp only: if_False)
    show ?thesis
    proof (cases "int i = ?i")
      case True
      then have "cell_index (walk row col dir 0) = int i" by (simp add: cell_index_def)
      then have "\<exists>j<Suc k. cell_index (walk row col dir j) = int i" by blast
      moreover have "?b1 ! i = cell"
        using True Suc.prems(1) that by (metis nat_int nth_list_update_eq)
      ultimately show ?thesis using eq by (simp only: if_True)
    next
      case ne: False
      have "\<not> (\<exists>j<Suc k. cell_index (walk row col dir j) = int i)"
      proof
        assume "\<exists>j<Suc k. cell_index (walk row col dir j) = int i"
        then obtain j where j: "j < Suc k" "cell_index (walk row col dir j) = int i" by blast
        show False
        proof (cases j)
          case 0
          with j ne show False by (simp add: cell_index_def)
        next
          case (Suc j')
          with j False show False by auto
        qed
      qed
      moreover have "?b1 ! i = b ! i"
        using ne i by (metis int_nat_eq nth_list_update_neq)
      ultimately show ?thesis using eq by (simp only: if_False)
    qed
  qed
  with step b'(1,2) show ?case by simp
qed


lemma CountSteps_InrD:
  assumes "CountSteps b player move dir = Inr n"
  shows "0 \<le> move \<and> move < 64 \<and> (\<exists>own. PlayerToState player = Inr own)"
  using assms
  by (auto simp: CountSteps_def RowColFromMove_def split: sum.splits if_splits)

lemma Capture_unfold:
  "PlayerToState player = Inr own \<Longrightarrow> 0 \<le> move \<Longrightarrow> move < 64 \<Longrightarrow>
   Capture b player move dir steps =
     Capture_loop b own dir (fst (ray_cell move dir 0)) (snd (ray_cell move dir 0)) 0 steps"
  by (simp add: Capture_def RowColFromMove_def ray_cell_def)

lemma cell_is_nth:
  "cell_is b p c \<longleftrightarrow> OnBoard (fst p) (snd p) \<and> b ! nat (cell_index p) = c"
  using OnBoard_index_range [of "fst p" "snd p"]
  by (auto simp: cell_is_def BoardAt_def board_get_def cell_index_def)

lemma Capture_ok:
  assumes len: "length b = 64" and cs: "CountSteps b player move dir = Inr steps"
    and pos: "0 < steps"
  shows "\<exists>b' own. PlayerToState player = Inr own \<and>
           Capture b player move dir steps = Inr b' \<and> length b' = 64 \<and>
           (\<forall>j < nat steps.
              (\<exists>c. PlayerToState (1 - player) = Inr c \<and> cell_is b (ray_cell move dir j) c) \<and>
              cell_is b' (ray_cell move dir j) own) \<and>
           (\<forall>i<64. (\<forall>j < nat steps. cell_index (ray_cell move dir j) \<noteq> int i) \<longrightarrow>
              b' ! i = b ! i)"
proof -
  let ?r = "fst (ray_cell move dir 0)" and ?c = "snd (ray_cell move dir 0)"
  from CountSteps_InrD [OF cs] obtain own where
    m: "0 \<le> move" "move < 64" and own: "PlayerToState player = Inr own"
    by blast
  have loop: "CountSteps_loop b own dir ?r ?c 0 = Inr steps"
    using cs CountSteps_unfold [OF own m] by simp
  from CountSteps_loop_conv [OF loop _ pos]
  have opp: "\<forall>j < nat steps. \<exists>c. cell_is b (ray_cell move dir j) c \<and> c \<noteq> own \<and> c \<noteq> kEmpty"
    by (simp add: ray_cell_walk)
  then have opp': "\<forall>j < nat steps. \<exists>c. cell_is b (walk ?r ?c dir j) c \<and> c \<noteq> own \<and> c \<noteq> kEmpty"
    by (simp add: ray_cell_walk)
  from Capture_loop_flips [OF len opp', of 0] pos obtain b' where b':
    "Capture_loop b own dir ?r ?c 0 steps = Inr b'" "length b' = 64"
    "\<forall>i<64. b' ! i = (if \<exists>j<nat steps. cell_index (ray_cell move dir j) = int i then own else b ! i)"
    by (auto simp: ray_cell_walk)
  have cap: "Capture b player move dir steps = Inr b'"
    using b'(1) Capture_unfold [OF own m] by simp
  have flipped: "(\<exists>c. PlayerToState (1 - player) = Inr c \<and> cell_is b (ray_cell move dir j) c) \<and>
      cell_is b' (ray_cell move dir j) own" if j: "j < nat steps" for j
  proof -
    from opp j obtain c where c: "cell_is b (ray_cell move dir j) c" "c \<noteq> own" "c \<noteq> kEmpty"
      by blast
    then have ob: "OnBoard (fst (ray_cell move dir j)) (snd (ray_cell move dir j))"
      by (simp add: cell_is_def)
    let ?i = "nat (cell_index (ray_cell move dir j))"
    have rng: "0 \<le> cell_index (ray_cell move dir j)" "?i < 64"
      using OnBoard_index_range [OF ob] unfolding cell_index_def by linarith+
    have "b' ! ?i = (if \<exists>j'<nat steps.
        cell_index (ray_cell move dir j') = int ?i then own else b ! ?i)"
      using b'(3) rng(2) by blast
    moreover have "\<exists>j'<nat steps. cell_index (ray_cell move dir j') = int ?i"
      using j rng(1) by auto
    ultimately have "b' ! ?i = own" by (simp only: if_True)
    with ob have "cell_is b' (ray_cell move dir j) own"
      by (simp add: cell_is_nth)
    with c opponent_iff [OF own] show ?thesis by blast
  qed
  have frame: "b' ! i = b ! i"
    if "i < 64" "\<forall>j < nat steps. cell_index (ray_cell move dir j) \<noteq> int i" for i
  proof -
    have "b' ! i = (if \<exists>j<nat steps. cell_index (ray_cell move dir j) = int i then own else b ! i)"
      using b'(3) that(1) by blast
    moreover have "\<not> (\<exists>j<nat steps. cell_index (ray_cell move dir j) = int i)"
      using that(2) by blast
    ultimately show ?thesis by (simp only: if_False)
  qed
  from own cap b'(2) flipped frame show ?thesis by blast
qed

text \<open>
  C4. Let \<open>steps\<close> be the value that \<^verbatim>\<open>CountSteps(player, move, direction)\<close> has just returned
  on the board, with \<open>steps > 0\<close>. Then \<^verbatim>\<open>Capture(player, move, direction, steps)\<close> on that
  board does not fail: each of the \<open>steps\<close> cells it visits is on the board and holds the
  opponent's colour (so it is neither empty nor the player's own), each of them holds the
  player's colour afterwards, and every other cell is unchanged. This holds whatever the
  cell at \<open>move\<close> holds; in \<^verbatim>\<open>DoApplyAction\<close> it holds the piece just placed.
\<close>

theorem Capture_after_CountSteps:
  assumes "length b = 64" and "CountSteps b player move dir = Inr steps" and "0 < steps"
  shows "\<exists>b' own. PlayerToState player = Inr own \<and>
           Capture b player move dir steps = Inr b' \<and> length b' = 64 \<and>
           (\<forall>j < nat steps.
              (\<exists>c. PlayerToState (1 - player) = Inr c \<and> cell_is b (ray_cell move dir j) c) \<and>
              cell_is b' (ray_cell move dir j) own) \<and>
           (\<forall>i<64. (\<forall>j < nat steps. cell_index (ray_cell move dir j) \<noteq> int i) \<longrightarrow>
              b' ! i = b ! i)"
  using assms by (rule Capture_ok)

theorem Capture_after_CountSteps_witness:
  "length (initial_board[19 := kBlack]) = 64 \<and>
   CountSteps (initial_board[19 := kBlack]) 0 19 kDown = Inr 1 \<and>
   ray_cell 19 kDown 0 = (3, 3) \<and>
   cell_is (initial_board[19 := kBlack]) (3, 3) kWhite \<and>
   (\<exists>b'. Capture (initial_board[19 := kBlack]) 0 19 kDown 1 = Inr b' \<and> length b' = 64 \<and>
         cell_is b' (3, 3) kBlack)"
proof -
  let ?b = "initial_board[19 := kBlack]"
  have len: "length ?b = 64"
    by (simp add: initial_board_def)
  have cs: "CountSteps ?b 0 19 kDown = Inr 1"
    by (simp add: CountSteps_def RowColFromMove_def PlayerToState_def CountSteps_loop.simps
        OnBoard_def BoardAt_def board_get_def initial_board_def)
  have rc: "ray_cell 19 kDown 0 = (3, 3)"
    by (simp add: ray_cell_def)
  have w: "cell_is ?b (3, 3) kWhite"
    by (simp add: cell_is_def OnBoard_def BoardAt_def board_get_def initial_board_def)
  from Capture_after_CountSteps [OF len cs] obtain b' own where
    "PlayerToState 0 = Inr own" "Capture ?b 0 19 kDown 1 = Inr b'" "length b' = 64"
    "\<forall>j < nat 1. (\<exists>c. PlayerToState (1 - 0) = Inr c \<and> cell_is ?b (ray_cell 19 kDown j) c) \<and>
        cell_is b' (ray_cell 19 kDown j) own"
    by auto
  then have "Capture ?b 0 19 kDown 1 = Inr b' \<and> length b' = 64 \<and> cell_is b' (3, 3) kBlack"
    using rc by (simp add: PlayerToState_def)
  with len cs rc w show ?thesis by blast
qed

section \<open>Legal moves and move application\<close>

lemma CountSteps_loop_total:
  "0 \<le> count \<Longrightarrow> \<exists>n. CountSteps_loop b cell dir row col count = Inr n \<and> 0 \<le> n"
proof (induction b cell dir row col count rule: CountSteps_loop.induct)
  case (1 b cell dir row col count)
  show ?case
  proof (cases "OnBoard row col")
    case False
    then show ?thesis by (simp add: CountSteps_loop_off)
  next
    case ob: True
    then obtain c where c: "BoardAt b row col = Inr c"
      using OnBoard_index_range [OF ob] by (simp add: BoardAt_def board_get_def)
    show ?thesis
    proof (cases "c = cell \<or> c = kEmpty")
      case True
      with ob c "1.prems" show ?thesis
        by (auto simp: CountSteps_loop.simps [of b cell dir row col count])
    next
      case False
      then have "\<exists>n. CountSteps_loop b cell dir (fst (GetNext row col dir))
          (snd (GetNext row col dir)) (count + 1) = Inr n \<and> 0 \<le> n"
        using "1.IH" [OF ob c] "1.prems" by simp
      with False ob c show ?thesis
        by (simp add: CountSteps_loop.simps [of b cell dir row col count])
    qed
  qed
qed

lemma CountSteps_total:
  assumes "PlayerToState player = Inr own" and "0 \<le> move" and "move < 64"
  shows "\<exists>n. CountSteps b player move dir = Inr n \<and> 0 \<le> n"
  using CountSteps_loop_total [of 0 b own dir] CountSteps_unfold [OF assms] by simp

lemma CanCapture_loop_total:
  assumes "PlayerToState player = Inr own" and "0 \<le> move" and "move < 64"
  shows "\<exists>v. CanCapture_loop b player move ds = Inr v"
proof (induction ds)
  case Nil
  then show ?case by auto
next
  case (Cons d ds)
  from CountSteps_total [OF assms] obtain n where "CountSteps b player move d = Inr n"
    by blast
  with Cons show ?case by auto
qed

lemma CanCapture_loop_TrueD:
  "CanCapture_loop b player move ds = Inr True \<Longrightarrow>
   \<exists>d \<in> set ds. \<exists>n. CountSteps b player move d = Inr n \<and> n \<noteq> 0"
  by (induction ds) (auto split: sum.splits if_splits)

lemma CanCapture_loop_TrueI:
  assumes "PlayerToState player = Inr own" and "0 \<le> move" and "move < 64"
  shows "d \<in> set ds \<Longrightarrow> CountSteps b player move d = Inr n \<Longrightarrow> n \<noteq> 0 \<Longrightarrow>
   CanCapture_loop b player move ds = Inr True"
proof (induction ds)
  case Nil
  then show ?case by simp
next
  case (Cons e ds)
  from CountSteps_total [OF assms] obtain k where k: "CountSteps b player move e = Inr k"
    by blast
  with Cons show ?case by (cases "k = 0") auto
qed

lemma ValidAction_total:
  assumes "PlayerToState player = Inr own" and "0 \<le> move" and "move < 64"
  shows "\<exists>v. ValidAction b player move = Inr v"
  using CanCapture_loop_total [OF assms, of b directions] assms(2,3)
  by (auto simp: ValidAction_def CanCapture_def board_get_def)

lemma ValidAction_True_iff:
  "ValidAction b player move = Inr True \<longleftrightarrow>
   board_get b move = Inr kEmpty \<and> CanCapture b player move = Inr True"
  by (auto simp: ValidAction_def split: sum.splits)

lemma ValidAction_TrueD:
  assumes "ValidAction b player move = Inr True"
  shows "0 \<le> move \<and> move < 64 \<and> board_get b move = Inr kEmpty \<and>
         (\<exists>own. PlayerToState player = Inr own) \<and>
         (\<exists>d n. CountSteps b player move d = Inr n \<and> n \<noteq> 0)"
proof -
  from assms have e: "board_get b move = Inr kEmpty" and "CanCapture b player move = Inr True"
    by (simp_all add: ValidAction_True_iff)
  then have "CanCapture_loop b player move directions = Inr True"
    by (simp add: CanCapture_def)
  from CanCapture_loop_TrueD [OF this] obtain d n where
    dn: "CountSteps b player move d = Inr n" "n \<noteq> 0" by blast
  with CountSteps_InrD [OF dn(1)] e show ?thesis by blast
qed

lemma LegalRegularActions_loop_filter:
  "\<forall>c \<in> set cells. \<exists>v. ValidAction b p c = Inr v \<Longrightarrow>
   LegalRegularActions_loop b p cells moves =
     Inr (moves @ filter (\<lambda>c. ValidAction b p c = Inr True) cells)"
proof (induction cells arbitrary: moves)
  case Nil
  then show ?case by simp
next
  case (Cons c cells)
  then obtain v where v: "ValidAction b p c = Inr v" by auto
  from Cons have "LegalRegularActions_loop b p cells (if v then moves @ [c] else moves) =
     Inr ((if v then moves @ [c] else moves) @ filter (\<lambda>c. ValidAction b p c = Inr True) cells)"
    by simp
  with v show ?case by simp
qed

lemma LegalRegularActions_loop_subset:
  "LegalRegularActions_loop b p cells moves = Inr r \<Longrightarrow>
   set r \<subseteq> set moves \<union> {c \<in> set cells. ValidAction b p c = Inr True}"
proof (induction cells arbitrary: moves)
  case Nil
  then show ?case by simp
next
  case (Cons c cells)
  then show ?case
    by (fastforce split: sum.splits if_splits)
qed

lemma LegalRegularActions_filter:
  assumes "PlayerToState p = Inr own"
  shows "LegalRegularActions b p = Inr (filter (\<lambda>c. ValidAction b p c = Inr True) [0..63])"
proof -
  have "\<forall>c \<in> set [0..63]. \<exists>v. ValidAction b p c = Inr v"
    using ValidAction_total [OF assms] by simp
  from LegalRegularActions_loop_filter [OF this, of "[]"] show ?thesis
    by (simp add: LegalRegularActions_def)
qed

lemma LegalRegularActions_memD:
  assumes "LegalRegularActions b p = Inr r" and "m \<in> set r"
  shows "ValidAction b p m = Inr True"
  using LegalRegularActions_loop_subset [OF assms(1) [unfolded LegalRegularActions_def]] assms(2)
  by auto


lemma DoApplyAction_loop_total:
  assumes "PlayerToState player = Inr own" and "0 \<le> move" and "move < 64"
  shows "length b = 64 \<Longrightarrow>
         \<exists>b'. DoApplyAction_loop b player move ds = Inr b' \<and> length b' = 64"
proof (induction ds arbitrary: b)
  case Nil
  then show ?case by simp
next
  case (Cons d ds)
  from CountSteps_total [OF assms] obtain steps where
    cs: "CountSteps b player move d = Inr steps" by blast
  show ?case
  proof (cases "0 < steps")
    case True
    from Capture_ok [OF Cons.prems cs True] obtain b1 where
      b1: "Capture b player move d steps = Inr b1" "length b1 = 64" by blast
    from Cons.IH [OF b1(2)] cs True b1(1) show ?thesis by simp
  next
    case False
    with Cons.IH [OF Cons.prems] cs show ?thesis by simp
  qed
qed

lemma PlayerToState_0: "PlayerToState 0 = Inr kBlack"
  by (simp add: PlayerToState_def)

lemma PlayerToState_1: "PlayerToState 1 = Inr kWhite"
  by (simp add: PlayerToState_def)

lemma NoValidActions_eq:
  "NoValidActions b =
     Inr (filter (\<lambda>c. ValidAction b 0 c = Inr True) [0..63] = [] \<and>
          filter (\<lambda>c. ValidAction b 1 c = Inr True) [0..63] = [])"
  unfolding NoValidActions_def
    LegalRegularActions_filter [OF PlayerToState_0] LegalRegularActions_filter [OF PlayerToState_1]
  by simp

lemma DiskCount_total: "\<exists>c0 c1. DiskCount b 0 = Inr c0 \<and> DiskCount b 1 = Inr c1"
  by (simp add: DiskCount_def PlayerToState_def)

lemma end_game_check_cases:
  "\<exists>c0 c1. DiskCount b 0 = Inr c0 \<and> DiskCount b 1 = Inr c1 \<and>
     ((NoValidActions b = Inr True \<and>
       end_game_check s b = Inr (s\<lparr>board := b,
          outcome := (if c0 > c1 then 0 else if c0 < c1 then 1 else kTerminalPlayerId)\<rparr>)) \<or>
      (NoValidActions b = Inr False \<and>
       end_game_check s b = Inr (s\<lparr>board := b, current_player := 1 - current_player s\<rparr>)))"
proof -
  from DiskCount_total obtain c0 c1 where c: "DiskCount b 0 = Inr c0" "DiskCount b 1 = Inr c1"
    by blast
  obtain v where v: "NoValidActions b = Inr v"
    using NoValidActions_eq by blast
  show ?thesis
    using c v by (cases v) (auto simp: end_game_check_def)
qed

lemma DoApplyAction_valid:
  assumes len: "length (board s) = 64"
    and va: "ValidAction (board s) (current_player s) move = Inr True"
    and np: "move \<noteq> kPassMove"
  shows "\<exists>own b2. PlayerToState (current_player s) = Inr own \<and>
           DoApplyAction_loop ((board s)[nat move := own]) (current_player s) move directions
             = Inr b2 \<and>
           length b2 = 64 \<and> DoApplyAction s move = end_game_check s b2"
proof -
  from ValidAction_TrueD [OF va] obtain own where
    m: "0 \<le> move" "move < 64" and own: "PlayerToState (current_player s) = Inr own"
    by blast
  let ?b1 = "(board s)[nat move := own]"
  have set: "board_set (board s) move own = Inr ?b1"
    using m by (simp add: board_set_def)
  have "length ?b1 = 64" using len by simp
  from DoApplyAction_loop_total [OF own m this, of directions] obtain b2 where
    b2: "DoApplyAction_loop ?b1 (current_player s) move directions = Inr b2" "length b2 = 64"
    by blast
  have "DoApplyAction s move = end_game_check s b2"
    using np va own set b2(1) by (simp add: DoApplyAction_def)
  with own b2 show ?thesis by blast
qed

lemma DoApplyAction_InrD:
  assumes "DoApplyAction s move = Inr s'" and "move \<noteq> kPassMove"
  shows "ValidAction (board s) (current_player s) move = Inr True"
  using assms by (auto simp: DoApplyAction_def split: sum.splits if_splits)

lemma fold_count:
  "fold (\<lambda>i count. if b ! i = cell then count + 1 else count) [0..<n] (0::int) =
   int (length (filter (\<lambda>i. b ! i = cell) [0..<n]))"
  by (induction n) simp_all

lemma DiskCount_count_list:
  assumes "length b = 64" and "PlayerToState player = Inr cell"
  shows "DiskCount b player = Inr (int (count_list b cell))"
proof -
  have "length (filter (\<lambda>i. b ! i = cell) [0..<length b]) =
        length (filter (\<lambda>c. c = cell) (map (nth b) [0..<length b]))"
    by (simp add: filter_map comp_def)
  also have "\<dots> = length (filter (\<lambda>c. c = cell) b)"
    by (simp only: map_nth)
  also have "\<dots> = count_list b cell"
  proof -
    have "(\<lambda>c. c = cell) = ((=) cell)" by auto
    then show ?thesis by (simp add: count_list_eq_length_filter)
  qed
  finally show ?thesis
    using assms by (simp add: DiskCount_def fold_count)
qed

lemma NoValidActions_both:
  "NoValidActions b = Inr (LegalRegularActions b 0 = Inr [] \<and> LegalRegularActions b 1 = Inr [])"
  unfolding NoValidActions_eq
    LegalRegularActions_filter [OF PlayerToState_0] LegalRegularActions_filter [OF PlayerToState_1]
  by simp

text \<open>
  C3. In a state with a 64-cell board, every move that \<^verbatim>\<open>LegalActions\<close> returns, other than
  Pass, is applied by \<^verbatim>\<open>DoApplyAction\<close> without any fatal error; the move is a cell of the
  board, that cell is empty in the state, and in at least one direction \<^verbatim>\<open>CountSteps\<close> for
  the current player is not zero.
\<close>

theorem LegalActions_apply_ok:
  assumes "length (board s) = 64" and "LegalActions s = Inr ms" and "m \<in> set ms"
    and "m \<noteq> kPassMove"
  shows "(\<exists>s'. DoApplyAction s m = Inr s') \<and>
         0 \<le> m \<and> m < 64 \<and> board_get (board s) m = Inr kEmpty \<and>
         (\<exists>d n. CountSteps (board s) (current_player s) m d = Inr n \<and> n \<noteq> 0)"
proof -
  from assms(2,3,4) obtain r where
    r: "LegalRegularActions (board s) (current_player s) = Inr r" "m \<in> set r"
    by (auto simp: LegalActions_def split: if_splits sum.splits)
  then have va: "ValidAction (board s) (current_player s) m = Inr True"
    by (rule LegalRegularActions_memD)
  from DoApplyAction_valid [OF assms(1) va assms(4)] obtain b2 where
    "DoApplyAction s m = end_game_check s b2" by blast
  with end_game_check_cases [of b2 s] have "\<exists>s'. DoApplyAction s m = Inr s'"
    by auto
  with ValidAction_TrueD [OF va] show ?thesis by blast
qed


theorem LegalActions_apply_ok_witness:
  "length (board NewInitialState) = 64 \<and>
   LegalActions NewInitialState = Inr [19, 26, 37, 44] \<and>
   (\<exists>s'. DoApplyAction NewInitialState 19 = Inr s') \<and>
   board_get (board NewInitialState) 19 = Inr kEmpty \<and>
   (\<exists>d n. CountSteps (board NewInitialState) (current_player NewInitialState) 19 d = Inr n \<and>
      n \<noteq> 0)"
proof -
  have len: "length (board NewInitialState) = 64"
    by (simp add: NewInitialState_def initial_board_def)
  have la: "LegalActions NewInitialState = Inr [19, 26, 37, 44]"
    by code_simp
  have m: "19 \<in> set [19, 26, 37, 44 :: int]" "19 \<noteq> kPassMove"
    by (simp_all add: kPassMove_def)
  from LegalActions_apply_ok [OF len la m] len la show ?thesis
    by blast
qed

text \<open>
  C1. Let a regular (non-Pass) move be applied with success to a state with a 64-cell
  board, and let \<open>b2\<close> be the board after the piece is placed and all captures are made; it
  is the board of the new state. If neither player has a legal regular move on \<open>b2\<close>, the
  new state is terminal and its outcome is player 0 when black (player 0) holds strictly
  more cells of \<open>b2\<close> than white, player 1 when white holds strictly more, and the draw
  value when they hold the same number; \<^verbatim>\<open>Returns\<close> is then \<open>{1, -1}\<close>, \<open>{-1, 1}\<close> and \<open>{0, 0}\<close>.
  Otherwise the outcome is the one before (undecided if it was undecided) and the current
  player is the other player.
\<close>

theorem DoApplyAction_end_game:
  assumes "length (board s) = 64" and "move \<noteq> kPassMove" and "DoApplyAction s move = Inr s'"
  shows "\<exists>own b2.
     PlayerToState (current_player s) = Inr own \<and>
     DoApplyAction_loop ((board s)[nat move := own]) (current_player s) move directions = Inr b2 \<and>
     board s' = b2 \<and>
     (LegalRegularActions b2 0 = Inr [] \<and> LegalRegularActions b2 1 = Inr [] \<longrightarrow>
        IsTerminal s' \<and>
        (count_list b2 kBlack > count_list b2 kWhite \<longrightarrow>
           outcome s' = 0 \<and> Returns s' = [1, - 1]) \<and>
        (count_list b2 kBlack < count_list b2 kWhite \<longrightarrow>
           outcome s' = 1 \<and> Returns s' = [- 1, 1]) \<and>
        (count_list b2 kBlack = count_list b2 kWhite \<longrightarrow>
           outcome s' = kTerminalPlayerId \<and> Returns s' = [0, 0])) \<and>
     (\<not> (LegalRegularActions b2 0 = Inr [] \<and> LegalRegularActions b2 1 = Inr []) \<longrightarrow>
        outcome s' = outcome s \<and> IsTerminal s' = IsTerminal s \<and>
        current_player s' = 1 - current_player s)"
proof -
  have va: "ValidAction (board s) (current_player s) move = Inr True"
    using assms(3,2) by (rule DoApplyAction_InrD)
  from DoApplyAction_valid [OF assms(1) va assms(2)] obtain own b2 where
    own: "PlayerToState (current_player s) = Inr own"
    and b2: "DoApplyAction_loop ((board s)[nat move := own]) (current_player s) move directions
             = Inr b2"
    and len: "length b2 = 64"
    and eg: "end_game_check s b2 = Inr s'"
    using assms(3) by auto
  let ?both = "LegalRegularActions b2 0 = Inr [] \<and> LegalRegularActions b2 1 = Inr []"
  let ?k = "int (count_list b2 kBlack)" and ?w = "int (count_list b2 kWhite)"
  have nva: "NoValidActions b2 = Inr ?both" by (rule NoValidActions_both)
  have d0: "DiskCount b2 0 = Inr ?k" using DiskCount_count_list [OF len PlayerToState_0] .
  have d1: "DiskCount b2 1 = Inr ?w" using DiskCount_count_list [OF len PlayerToState_1] .
  have s': "s' = (if ?both then
                   s\<lparr>board := b2,
                     outcome := (if ?k > ?w then 0 else if ?k < ?w then 1 else kTerminalPlayerId)\<rparr>
                 else s\<lparr>board := b2, current_player := 1 - current_player s\<rparr>)"
  proof (cases ?both)
    case True
    then have "NoValidActions b2 = Inr True" using nva by simp
    with eg d0 d1 True show ?thesis
      by (auto simp: end_game_check_def split: if_splits)
  next
    case False
    then have "NoValidActions b2 = Inr False" using nva by simp
    with eg False show ?thesis
      by (auto simp: end_game_check_def)
  qed
  have brd: "board s' = b2" using s' by (simp split: if_splits)
  have fin: "IsTerminal s' \<and>
        (count_list b2 kBlack > count_list b2 kWhite \<longrightarrow>
           outcome s' = 0 \<and> Returns s' = [1, - 1]) \<and>
        (count_list b2 kBlack < count_list b2 kWhite \<longrightarrow>
           outcome s' = 1 \<and> Returns s' = [- 1, 1]) \<and>
        (count_list b2 kBlack = count_list b2 kWhite \<longrightarrow>
           outcome s' = kTerminalPlayerId \<and> Returns s' = [0, 0])" if "?both"
    using s' that
    by (simp add: IsTerminal_def Returns_def kInvalidPlayer_def kTerminalPlayerId_def)
  have cont: "outcome s' = outcome s \<and> IsTerminal s' = IsTerminal s \<and>
        current_player s' = 1 - current_player s" if "\<not> ?both"
    using s' that by (simp add: IsTerminal_def)
  from own b2 brd fin cont show ?thesis by blast
qed


theorem DoApplyAction_end_game_witness:
  "DoApplyAction
     \<lparr>board = (replicate 64 kEmpty)[0 := kBlack, 1 := kWhite], current_player = 0,
      outcome = kInvalidPlayer\<rparr> 2 =
   Inr \<lparr>board = (replicate 64 kEmpty)[0 := kBlack, 1 := kBlack, 2 := kBlack],
        current_player = 0, outcome = 0\<rparr> \<and>
   LegalRegularActions ((replicate 64 kEmpty)[0 := kBlack, 1 := kBlack, 2 := kBlack]) 0 = Inr [] \<and>
   LegalRegularActions ((replicate 64 kEmpty)[0 := kBlack, 1 := kBlack, 2 := kBlack]) 1 = Inr [] \<and>
   count_list ((replicate 64 kEmpty)[0 := kBlack, 1 := kBlack, 2 := kBlack]) kBlack = 3 \<and>
   count_list ((replicate 64 kEmpty)[0 := kBlack, 1 := kBlack, 2 := kBlack]) kWhite = 0 \<and>
   Returns \<lparr>board = (replicate 64 kEmpty)[0 := kBlack, 1 := kBlack, 2 := kBlack],
        current_player = 0, outcome = 0\<rparr> = [1, - 1] \<and>
   (\<exists>s'. DoApplyAction NewInitialState 19 = Inr s' \<and>
      LegalRegularActions (board s') 1 = Inr [18, 20, 34] \<and>
      \<not> IsTerminal s' \<and> current_player s' = 1)"
proof -
  let ?s = "\<lparr>board = (replicate 64 kEmpty)[0 := kBlack, 1 := kWhite], current_player = 0,
      outcome = kInvalidPlayer\<rparr>"
  let ?b = "(replicate 64 kEmpty)[0 := kBlack, 1 := kBlack, 2 := kBlack]"
  let ?t = "\<lparr>board = ?b, current_player = 0, outcome = 0\<rparr>"
  have len: "length (board ?s) = 64" by simp
  have np: "2 \<noteq> kPassMove" "19 \<noteq> kPassMove" by (simp_all add: kPassMove_def)
  have ap: "DoApplyAction ?s 2 = Inr ?t" by code_simp
  have l0: "LegalRegularActions ?b 0 = Inr []" by code_simp
  have l1: "LegalRegularActions ?b 1 = Inr []" by code_simp
  have k: "count_list ?b kBlack = 3" by code_simp
  have w: "count_list ?b kWhite = 0" by code_simp
  from DoApplyAction_end_game [OF len np(1) ap] l0 l1 k w
  have ret: "Returns ?t = [1, - 1]" by auto
  let ?u = "\<lparr>board = initial_board[19 := kBlack, 27 := kBlack], current_player = 1,
      outcome = kInvalidPlayer\<rparr>"
  have len': "length (board NewInitialState) = 64"
    by (simp add: NewInitialState_def initial_board_def)
  have ap': "DoApplyAction NewInitialState 19 = Inr ?u" by code_simp
  have l1': "LegalRegularActions (board ?u) 1 = Inr [18, 20, 34]" by code_simp
  have nt: "\<not> IsTerminal NewInitialState"
    by (simp add: IsTerminal_def NewInitialState_def)
  from DoApplyAction_end_game [OF len' np(2) ap'] l1' nt
  have "\<not> IsTerminal ?u \<and> current_player ?u = 1"
    by (auto simp: NewInitialState_def)
  with ap' l1' have "\<exists>s'. DoApplyAction NewInitialState 19 = Inr s' \<and>
      LegalRegularActions (board s') 1 = Inr [18, 20, 34] \<and>
      \<not> IsTerminal s' \<and> current_player s' = 1"
    by blast
  with ap l0 l1 k w ret show ?thesis by blast
qed

text \<open>
  C5. In a terminal state \<^verbatim>\<open>LegalActions\<close> returns the empty list. In a state that is not
  terminal, with current player 0 or 1, let \<open>ms\<close> be the cells of \<open>[0, 64)\<close>, in increasing
  order, that are empty and for which \<^verbatim>\<open>CanCapture\<close> is true for the current player: then
  \<^verbatim>\<open>LegalActions\<close> returns \<open>ms\<close>, or the one-element list of the Pass action when \<open>ms\<close> is
  empty.
\<close>

theorem LegalActions_spec:
  "(IsTerminal s \<longrightarrow> LegalActions s = Inr []) \<and>
   (\<not> IsTerminal s \<and> (current_player s = 0 \<or> current_player s = 1) \<longrightarrow>
      (\<exists>ms. ms = filter (\<lambda>c. board_get (board s) c = Inr kEmpty \<and>
                         CanCapture (board s) (current_player s) c = Inr True) [0..63] \<and>
            sorted_wrt (<) ms \<and>
            LegalActions s = Inr (if ms = [] then [kPassMove] else ms)))"
proof (intro conjI impI)
  assume "IsTerminal s"
  then show "LegalActions s = Inr []" by (simp add: LegalActions_def)
next
  assume a: "\<not> IsTerminal s \<and> (current_player s = 0 \<or> current_player s = 1)"
  define P where "P = (\<lambda>c. board_get (board s) c = Inr kEmpty \<and>
                CanCapture (board s) (current_player s) c = Inr True)"
  define ms where "ms = filter P [0..63]"
  from a obtain own where own: "PlayerToState (current_player s) = Inr own"
    by (auto simp: PlayerToState_def)
  have "LegalRegularActions (board s) (current_player s) = Inr ms"
    unfolding LegalRegularActions_filter [OF own] ValidAction_True_iff ms_def P_def ..
  then have "LegalActions s = Inr (if ms = [] then [kPassMove] else ms)"
    using a by (simp add: LegalActions_def)
  moreover have "sorted_wrt (<) [0..63::int]"
    unfolding strict_sorted_iff by (intro conjI sorted_upto distinct_upto)
  then have "sorted_wrt (<) ms"
    unfolding ms_def by (rule sorted_wrt_filter)
  ultimately show "\<exists>ms. ms = filter (\<lambda>c. board_get (board s) c = Inr kEmpty \<and>
                         CanCapture (board s) (current_player s) c = Inr True) [0..63] \<and>
            sorted_wrt (<) ms \<and>
            LegalActions s = Inr (if ms = [] then [kPassMove] else ms)"
    unfolding ms_def P_def by blast
qed

theorem LegalActions_spec_witness:
  "IsTerminal (NewInitialState\<lparr>outcome := 0\<rparr>) \<and>
   LegalActions (NewInitialState\<lparr>outcome := 0\<rparr>) = Inr [] \<and>
   \<not> IsTerminal NewInitialState \<and> current_player NewInitialState = 0 \<and>
   filter (\<lambda>c. board_get (board NewInitialState) c = Inr kEmpty \<and>
                CanCapture (board NewInitialState) (current_player NewInitialState) c = Inr True)
     [0..63] = [19, 26, 37, 44] \<and>
   LegalActions NewInitialState = Inr [19, 26, 37, 44] \<and>
   LegalActions \<lparr>board = replicate 64 kEmpty, current_player = 1, outcome = kInvalidPlayer\<rparr>
     = Inr [kPassMove]"
proof -
  let ?e = "\<lparr>board = replicate 64 kEmpty, current_player = 1, outcome = kInvalidPlayer\<rparr>"
  have t: "IsTerminal (NewInitialState\<lparr>outcome := 0\<rparr>)"
    by (simp add: IsTerminal_def kInvalidPlayer_def)
  have n: "\<not> IsTerminal NewInitialState \<and>
      (current_player NewInitialState = 0 \<or> current_player NewInitialState = 1)"
    by (simp add: IsTerminal_def NewInitialState_def)
  have ne: "\<not> IsTerminal ?e \<and> (current_player ?e = 0 \<or> current_player ?e = 1)"
    by (simp add: IsTerminal_def)
  have f: "filter (\<lambda>c. board_get (board NewInitialState) c = Inr kEmpty \<and>
                CanCapture (board NewInitialState) (current_player NewInitialState) c = Inr True)
     [0..63] = [19, 26, 37, 44]"
    by code_simp
  have fe: "filter (\<lambda>c. board_get (board ?e) c = Inr kEmpty \<and>
                CanCapture (board ?e) (current_player ?e) c = Inr True) [0..63] = []"
    by code_simp
  have "LegalActions (NewInitialState\<lparr>outcome := 0\<rparr>) = Inr []"
    using LegalActions_spec [of "NewInitialState\<lparr>outcome := 0\<rparr>"] t by blast
  moreover have "LegalActions NewInitialState = Inr [19, 26, 37, 44]"
    using LegalActions_spec [of NewInitialState] n unfolding f by simp
  moreover have "LegalActions ?e = Inr [kPassMove]"
    using LegalActions_spec [of ?e] ne unfolding fe by simp
  moreover have "current_player NewInitialState = 0"
    by (simp add: NewInitialState_def)
  ultimately show ?thesis using t n f by blast
qed

section \<open>Observation tensor\<close>

lemma channel_of_less: "channel_of player c < 3"
  by (cases c) (simp_all add: channel_of_def)

lemma ObservationTensor_step_eq:
  "ObservationTensor_step b player cell view =
     view[view_index (channel_of player (b ! cell)) cell := 1]"
  by (cases "b ! cell") (simp_all add: ObservationTensor_step_def channel_of_def)

lemma view_index_div: "cell < 64 \<Longrightarrow> view_index ch cell div 64 = ch"
  by (simp add: view_index_def)

lemma view_index_mod: "cell < 64 \<Longrightarrow> view_index ch cell mod 64 = cell"
  by (simp add: view_index_def)

lemma view_index_inj:
  "cell < 64 \<Longrightarrow> n < 64 \<Longrightarrow> view_index ch cell = view_index ch' n \<longleftrightarrow> ch = ch' \<and> cell = n"
  by (metis view_index_div view_index_mod)

lemma view_index_less: "ch < 3 \<Longrightarrow> cell < 64 \<Longrightarrow> view_index ch cell < 192"
  unfolding view_index_def by linarith

lemma ObservationTensor_fold:
  "n \<le> 64 \<Longrightarrow>
   length (fold (ObservationTensor_step b player) [0..<n] TensorView_reset) = 192 \<and>
   (\<forall>cell<64. \<forall>ch<3.
      fold (ObservationTensor_step b player) [0..<n] TensorView_reset ! view_index ch cell =
        (if cell < n \<and> ch = channel_of player (b ! cell) then 1 else 0))"
proof (induction n)
  case 0
  then show ?case
    by (simp add: TensorView_reset_def view_index_less)
next
  case (Suc n)
  let ?t = "fold (ObservationTensor_step b player) [0..<n] TensorView_reset"
  let ?i = "view_index (channel_of player (b ! n)) n"
  from Suc have len: "length ?t = 192"
    and old: "\<forall>cell<64. \<forall>ch<3. ?t ! view_index ch cell =
        (if cell < n \<and> ch = channel_of player (b ! cell) then 1 else 0)"
    by simp_all
  have n: "n < 64" using Suc.prems by simp
  have new: "fold (ObservationTensor_step b player) [0..<Suc n] TensorView_reset = ?t[?i := 1]"
    by (simp add: ObservationTensor_step_eq)
  have i: "?i < 192" using view_index_less [OF channel_of_less n] .
  have "?t[?i := 1] ! view_index ch cell =
        (if cell < Suc n \<and> ch = channel_of player (b ! cell) then 1 else 0)"
    if "cell < 64" "ch < 3" for cell ch
  proof (cases "view_index ch cell = ?i")
    case True
    then have "ch = channel_of player (b ! n) \<and> cell = n"
      using view_index_inj [OF that(1) n] by simp
    with True i len show ?thesis by simp
  next
    case False
    then have ne: "\<not> (ch = channel_of player (b ! n) \<and> cell = n)" by auto
    have "?t[?i := 1] ! view_index ch cell = ?t ! view_index ch cell"
      using False by simp
    also have "\<dots> = (if cell < n \<and> ch = channel_of player (b ! cell) then 1 else 0)"
      using old that by blast
    also have "\<dots> = (if cell < Suc n \<and> ch = channel_of player (b ! cell) then 1 else 0)"
      using ne by (auto simp: less_Suc_eq)
    finally show ?thesis .
  qed
  with new len show ?case by simp
qed


lemma channel_of_cases:
  "channel_of player c < 3 \<and>
   (player = 0 \<longrightarrow> int (channel_of player c) = CellState_value c) \<and>
   (player = 1 \<longrightarrow>
      (CellState_value c = 0 \<longrightarrow> channel_of player c = 0) \<and>
      (CellState_value c = 1 \<longrightarrow> channel_of player c = 2) \<and>
      (CellState_value c = 2 \<longrightarrow> channel_of player c = 1))"
  by (cases c) (simp_all add: channel_of_def)

text \<open>
  C9. For a valid player, \<^verbatim>\<open>ObservationTensor\<close> does not fail and fills a tensor of 3
  channels by 64 cells in which, for each cell, the entry of the channel \<open>channel_of\<close>
  gives is 1.0 and the entries of the other two channels are 0.0. For player 0 that
  channel is the stored cell value; for player 1 the stored value 1 goes to channel 2, the
  stored value 2 to channel 1, and the stored value 0 (empty) to channel 0.
\<close>

theorem ObservationTensor_one_hot:
  assumes "player = 0 \<or> player = 1"
  shows "\<exists>t. ObservationTensor b player = Inr t \<and> length t = kCellStates * 64 \<and>
     (\<forall>cell<64. \<forall>ch<kCellStates.
        t ! view_index ch cell = (if ch = channel_of player (b ! cell) then 1 else 0)) \<and>
     (\<forall>cell<64. channel_of player (b ! cell) < kCellStates \<and>
        (player = 0 \<longrightarrow> int (channel_of player (b ! cell)) = CellState_value (b ! cell)) \<and>
        (player = 1 \<longrightarrow>
           (CellState_value (b ! cell) = 0 \<longrightarrow> channel_of player (b ! cell) = 0) \<and>
           (CellState_value (b ! cell) = 1 \<longrightarrow> channel_of player (b ! cell) = 2) \<and>
           (CellState_value (b ! cell) = 2 \<longrightarrow> channel_of player (b ! cell) = 1)))"
proof -
  define t where "t = fold (ObservationTensor_step b player) [0..<64] TensorView_reset"
  have ot: "ObservationTensor b player = Inr t"
    using assms unfolding ObservationTensor_def t_def by auto
  have inv: "length t = 192 \<and> (\<forall>cell<64. \<forall>ch<3. t ! view_index ch cell =
        (if cell < 64 \<and> ch = channel_of player (b ! cell) then 1 else 0))"
    unfolding t_def by (rule ObservationTensor_fold) (rule order_refl)
  then have len: "length t = kCellStates * 64" by simp
  have vals: "\<forall>cell<64. \<forall>ch<kCellStates.
        t ! view_index ch cell = (if ch = channel_of player (b ! cell) then 1 else 0)"
    using inv by simp
  from ot len vals channel_of_cases show ?thesis by blast
qed


theorem ObservationTensor_one_hot_witness:
  "initial_board ! 27 = kWhite \<and> CellState_value kWhite = 2 \<and>
   (\<exists>t. ObservationTensor initial_board 0 = Inr t \<and> length t = 192 \<and>
        t ! view_index 0 27 = 0 \<and> t ! view_index 1 27 = 0 \<and> t ! view_index 2 27 = 1) \<and>
   (\<exists>t. ObservationTensor initial_board 1 = Inr t \<and> length t = 192 \<and>
        t ! view_index 0 27 = 0 \<and> t ! view_index 1 27 = 1 \<and> t ! view_index 2 27 = 0)"
proof -
  have c: "initial_board ! 27 = kWhite"
    by (simp add: initial_board_def)
  have ch: "channel_of 0 kWhite = 2" "channel_of 1 kWhite = 1"
    by (simp_all add: channel_of_def)
  have p: "(0::int) = 0 \<or> (0::int) = 1" "(1::int) = 0 \<or> (1::int) = 1"
    by simp_all
  from ObservationTensor_one_hot [OF p(1), of initial_board] obtain t0 where t0:
    "ObservationTensor initial_board 0 = Inr t0" "length t0 = 3 * 64"
    "\<forall>cell<64. \<forall>ch<3. t0 ! view_index ch cell =
       (if ch = channel_of 0 (initial_board ! cell) then 1 else 0)"
    by blast
  from t0(3) have "\<forall>ch<3. t0 ! view_index ch 27 =
       (if ch = channel_of 0 (initial_board ! 27) then 1 else 0)"
    by simp
  then have v0: "t0 ! view_index 0 27 = 0 \<and> t0 ! view_index 1 27 = 0 \<and> t0 ! view_index 2 27 = 1"
    unfolding c ch by simp
  from ObservationTensor_one_hot [OF p(2), of initial_board] obtain t1 where t1:
    "ObservationTensor initial_board 1 = Inr t1" "length t1 = 3 * 64"
    "\<forall>cell<64. \<forall>ch<3. t1 ! view_index ch cell =
       (if ch = channel_of 1 (initial_board ! cell) then 1 else 0)"
    by blast
  from t1(3) have "\<forall>ch<3. t1 ! view_index ch 27 =
       (if ch = channel_of 1 (initial_board ! 27) then 1 else 0)"
    by simp
  then have v1: "t1 ! view_index 0 27 = 0 \<and> t1 ! view_index 1 27 = 1 \<and> t1 ! view_index 2 27 = 0"
    unfolding c ch by simp
  from c t0(1,2) v0 t1(1,2) v1 show ?thesis by simp
qed


end
